theory Spec2Isabelle
  imports Main
begin

section \<open>The packet-filter and named-set backend\<close>

text \<open>
  The program \<^verbatim>\<open>prog/weave-npc/main.go\<close> drives two command backends: the
  packet-filter tables (\<^verbatim>\<open>ipt\<close>, chains of rules) and the named sets
  (\<^verbatim>\<open>ips\<close>). Both are kept in one state value that is passed through every
  function and returned updated. Every backend operation is written to a log together with
  its outcome, so that a statement about which operations a function issues, and in which
  order, is a statement about the log.
\<close>

datatype ipset_type = HashIP | ListSet

datatype op =
    ClearChain string string
  | NewChain string string
  | Append string string "string list"
  | ListRules string string
  | SetList string
  | SetFlush string
  | SetDestroy string
  | SetCreate string ipset_type

datatype fmtarg = StrArg string | StrsArg "string list"

text \<open>
  A Go \<^verbatim>\<open>error\<close>: the failure of one backend operation, or such an error wrapped by
  \<^verbatim>\<open>errors.Wrapf\<close> with its format string and arguments. \<open>Panic\<close> is the run-time
  panic of an out-of-range slice expression, which unwinds the caller instead of returning.
\<close>

datatype error =
    Failed op string
  | Wrapf error string "fmtarg list"
  | Panic string

type_synonym rulespec = "string list"

record backend =
  chains :: "string \<times> string \<Rightarrow> rulespec list option"
  ipsets :: "(string \<times> ipset_type \<times> string list) list"
  calls :: "(op \<times> string option) list"
  faults :: "(op \<times> string option) list \<Rightarrow> op \<Rightarrow> string option"

text \<open>
  \<open>chains b (table, chain)\<close> is the ordered rule list of a chain, each rule the token list
  it was appended with, or \<open>None\<close> when the chain does not exist. \<open>ipsets b\<close> lists the
  named sets in the order the kernel reports them, each with its type and members.
  \<open>calls b\<close> is the log. \<open>faults b\<close> decides, from the log so far and the operation
  asked for, whether the backend refuses it (with a message): it stands for every failure
  of the tooling that the state below does not explain, and the theorems hold for each
  choice of it.
\<close>

definition logged :: "op \<Rightarrow> string option \<Rightarrow> backend \<Rightarrow> backend" where
  "logged c r b = b\<lparr>calls := calls b @ [(c, r)]\<rparr>"

text \<open>
  Modelled from the spec: the packet-filter library behind \<^verbatim>\<open>ipt\<close> is not under
  \<^verbatim>\<open>src/\<close>. Clearing a chain empties it (and declares it when it is missing); creating
  a chain that exists is an error, which is why \<^verbatim>\<open>addChainWithRules\<close> ignores the error of
  the creation; appending to or listing a chain that does not exist is an error; appending
  puts the rule last; listing yields the chain-declaration entry \<^verbatim>\<open>-N chain\<close> (the entry
  \<^verbatim>\<open>addChainWithRules\<close> skips) followed by one entry per rule, the rule's tokens joined by
  single spaces, which is the rendering \<^verbatim>\<open>addChainWithRules\<close> compares the listing with.
\<close>

fun Join :: "string list \<Rightarrow> string \<Rightarrow> string" where
  "Join [] sep = []"
| "Join [x] sep = x"
| "Join (x # y # ys) sep = x @ sep @ Join (y # ys) sep"

definition ipt_ClearChain :: "string \<Rightarrow> string \<Rightarrow> backend \<Rightarrow> error option \<times> backend" where
  "ipt_ClearChain table chain b =
     (let c = ClearChain table chain in
      case faults b (calls b) c of
        Some m \<Rightarrow> (Some (Failed c m), logged c (Some m) b)
      | None \<Rightarrow> (None, logged c None (b\<lparr>chains := (chains b)((table, chain) \<mapsto> [])\<rparr>)))"

definition ipt_NewChain :: "string \<Rightarrow> string \<Rightarrow> backend \<Rightarrow> error option \<times> backend" where
  "ipt_NewChain table chain b =
     (let c = NewChain table chain in
      case faults b (calls b) c of
        Some m \<Rightarrow> (Some (Failed c m), logged c (Some m) b)
      | None \<Rightarrow>
          (case chains b (table, chain) of
             Some rs \<Rightarrow> (Some (Failed c ''Chain already exists.''),
                         logged c (Some ''Chain already exists.'') b)
           | None \<Rightarrow> (None, logged c None (b\<lparr>chains := (chains b)((table, chain) \<mapsto> [])\<rparr>))))"

definition ipt_Append :: "string \<Rightarrow> string \<Rightarrow> rulespec \<Rightarrow> backend \<Rightarrow> error option \<times> backend" where
  "ipt_Append table chain r b =
     (let c = Append table chain r in
      case faults b (calls b) c of
        Some m \<Rightarrow> (Some (Failed c m), logged c (Some m) b)
      | None \<Rightarrow>
          (case chains b (table, chain) of
             None \<Rightarrow> (Some (Failed c ''No chain/target/match by that name.''),
                      logged c (Some ''No chain/target/match by that name.'') b)
           | Some rs \<Rightarrow>
               (None, logged c None (b\<lparr>chains := (chains b)((table, chain) \<mapsto> rs @ [r])\<rparr>))))"

definition ipt_List :: "string \<Rightarrow> string \<Rightarrow> backend \<Rightarrow> (error + string list) \<times> backend" where
  "ipt_List table chain b =
     (let c = ListRules table chain in
      case faults b (calls b) c of
        Some m \<Rightarrow> (Inl (Failed c m), logged c (Some m) b)
      | None \<Rightarrow>
          (case chains b (table, chain) of
             None \<Rightarrow> (Inl (Failed c ''No chain/target/match by that name.''),
                      logged c (Some ''No chain/target/match by that name.'') b)
           | Some rs \<Rightarrow>
               (Inr ((''-N '' @ chain) # map (\<lambda>r. Join r '' '') rs), logged c None b)))"

text \<open>
  Modelled from the spec: package \<^verbatim>\<open>net/ipset\<close> behind \<^verbatim>\<open>ips\<close> is not under
  \<^verbatim>\<open>src/\<close>. Listing yields the names of the sets that start with the given prefix;
  flushing empties a set; destroying removes it; creating adds an empty set of the given
  type, and is an error when the name is taken. Flushing or destroying a set that does not
  exist is an error.
\<close>

fun HasPrefix :: "string \<Rightarrow> string \<Rightarrow> bool" where
  "HasPrefix s [] = True"
| "HasPrefix [] (p # ps) = False"
| "HasPrefix (c # cs) (p # ps) = (c = p \<and> HasPrefix cs ps)"

definition set_names :: "backend \<Rightarrow> string list" where
  "set_names b = map fst (ipsets b)"

definition ips_List :: "string \<Rightarrow> backend \<Rightarrow> (error + string list) \<times> backend" where
  "ips_List prefix b =
     (let c = SetList prefix in
      case faults b (calls b) c of
        Some m \<Rightarrow> (Inl (Failed c m), logged c (Some m) b)
      | None \<Rightarrow> (Inr (filter (\<lambda>v. HasPrefix v prefix) (set_names b)), logged c None b))"

definition ips_Flush :: "string \<Rightarrow> backend \<Rightarrow> error option \<times> backend" where
  "ips_Flush name b =
     (let c = SetFlush name in
      case faults b (calls b) c of
        Some m \<Rightarrow> (Some (Failed c m), logged c (Some m) b)
      | None \<Rightarrow>
          (if name \<in> set (set_names b)
           then (None, logged c None
                  (b\<lparr>ipsets := map (\<lambda>(n, t, ms). if n = name then (n, t, []) else (n, t, ms))
                                   (ipsets b)\<rparr>))
           else (Some (Failed c ''The set with the given name does not exist''),
                 logged c (Some ''The set with the given name does not exist'') b)))"

definition ips_Destroy :: "string \<Rightarrow> backend \<Rightarrow> error option \<times> backend" where
  "ips_Destroy name b =
     (let c = SetDestroy name in
      case faults b (calls b) c of
        Some m \<Rightarrow> (Some (Failed c m), logged c (Some m) b)
      | None \<Rightarrow>
          (if name \<in> set (set_names b)
           then (None, logged c None (b\<lparr>ipsets := filter (\<lambda>e. fst e \<noteq> name) (ipsets b)\<rparr>))
           else (Some (Failed c ''The set with the given name does not exist''),
                 logged c (Some ''The set with the given name does not exist'') b)))"

definition ips_Create :: "string \<Rightarrow> ipset_type \<Rightarrow> backend \<Rightarrow> error option \<times> backend" where
  "ips_Create name t b =
     (let c = SetCreate name t in
      case faults b (calls b) c of
        Some m \<Rightarrow> (Some (Failed c m), logged c (Some m) b)
      | None \<Rightarrow>
          (if name \<in> set (set_names b)
           then (Some (Failed c ''Set cannot be created: set with the same name already exists''),
                 logged c (Some ''Set cannot be created: set with the same name already exists'') b)
           else (None, logged c None (b\<lparr>ipsets := ipsets b @ [(name, t, [])]\<rparr>))))"

section \<open>The constants of package npc\<close>

text \<open>
  Modelled from the spec: the names \<^verbatim>\<open>npc.TableFilter\<close>, \<^verbatim>\<open>npc.MainChain\<close>, ... are
  declared in package \<^verbatim>\<open>npc\<close>, which is not under \<^verbatim>\<open>src/\<close>. The functions take them
  as a parameter \<open>k\<close>; a theorem that needs two of them to differ says so.
\<close>

record npc_consts =
  TableFilter :: string
  MainChain :: string
  DefaultChain :: string
  IngressChain :: string
  EgressChain :: string
  EgressMarkChain :: string
  EgressCustomChain :: string
  EgressDefaultChain :: string
  EgressMark :: string
  IpsetNamePrefix :: string
  LocalIpset :: string

section \<open>resetIPTables and resetIPSets\<close>

text \<open>
  The Go idiom \<^verbatim>\<open>if err := f(); err != nil { return err }\<close> followed by the rest of
  the function: the rest runs on the state \<open>f\<close> left, and only when \<open>f\<close> returned no error.
\<close>

definition ok_then ::
  "error option \<times> backend \<Rightarrow> (backend \<Rightarrow> error option \<times> backend) \<Rightarrow> error option \<times> backend" where
  "ok_then r rest = (case r of (Some err, b) \<Rightarrow> (Some err, b) | (None, b) \<Rightarrow> rest b)"

definition resetIPTables :: "npc_consts \<Rightarrow> backend \<Rightarrow> error option \<times> backend" where
  "resetIPTables k b0 =
     ok_then (ipt_ClearChain (TableFilter k) (IngressChain k) b0) (\<lambda>b1.
     ok_then (ipt_ClearChain (TableFilter k) (DefaultChain k) b1) (\<lambda>b2.
     ok_then (ipt_ClearChain (TableFilter k) (MainChain k) b2) (\<lambda>b3.
     ok_then (ipt_ClearChain (TableFilter k) (EgressMarkChain k) b3) (\<lambda>b4.
     ok_then (ipt_ClearChain (TableFilter k) (EgressCustomChain k) b4) (\<lambda>b5.
     ok_then (ipt_ClearChain (TableFilter k) (EgressDefaultChain k) b5) (\<lambda>b6.
     (None, b6)))))))"

text \<open>The first loop of \<^verbatim>\<open>resetIPSets\<close>: flush each listed set, stop at the first error.\<close>

fun flush_loop :: "string list \<Rightarrow> backend \<Rightarrow> error option \<times> backend" where
  "flush_loop [] b = (None, b)"
| "flush_loop (s # sets) b = ok_then (ips_Flush s b) (flush_loop sets)"

text \<open>The second loop: destroy each listed set but \<^verbatim>\<open>npc.LocalIpset\<close>.\<close>

fun destroy_loop :: "npc_consts \<Rightarrow> string list \<Rightarrow> backend \<Rightarrow> error option \<times> backend" where
  "destroy_loop k [] b = (None, b)"
| "destroy_loop k (s # sets) b =
     (if s = LocalIpset k then destroy_loop k sets b
      else ok_then (ips_Destroy s b) (destroy_loop k sets))"

definition resetIPSets :: "npc_consts \<Rightarrow> backend \<Rightarrow> error option \<times> backend" where
  "resetIPSets k b0 =
     (case ips_List (IpsetNamePrefix k) b0 of
        (Inl err, b1) \<Rightarrow> (Some err, b1)
      | (Inr sets, b1) \<Rightarrow> ok_then (flush_loop sets b1) (destroy_loop k sets))"

text \<open>
  The Bootstrapper: \<^verbatim>\<open>root\<close> runs \<^verbatim>\<open>handleError(resetIPTables(ipt))\<close> and then
  \<^verbatim>\<open>handleError(resetIPSets(ips))\<close>; \<^verbatim>\<open>handleError\<close> ends the process on an error,
  so the second runs only when the first returned none.
\<close>

definition reset :: "npc_consts \<Rightarrow> backend \<Rightarrow> error option \<times> backend" where
  "reset k b0 = ok_then (resetIPTables k b0) (resetIPSets k)"

section \<open>addChainWithRules and ipsetExist\<close>

text \<open>The loop of \<^verbatim>\<open>addChainWithRules\<close> that appends the rules, wrapping the first error.\<close>

fun append_loop :: "string \<Rightarrow> string \<Rightarrow> rulespec list \<Rightarrow> backend \<Rightarrow> error option \<times> backend" where
  "append_loop table chain [] b = (None, b)"
| "append_loop table chain (r # rs) b =
     (case ipt_Append table chain r b of
        (Some err, b') \<Rightarrow>
          (Some (Wrapf err ''iptables -A. table: %q, chain: %q, rule: %s''
                   [StrArg table, StrArg chain, StrsArg r]), b')
      | (None, b') \<Rightarrow> append_loop table chain rs b')"

text \<open>\<^verbatim>\<open>reqRules\<close>: each rule joined by spaces, the rules joined by newlines.\<close>

definition reqRules :: "rulespec list \<Rightarrow> string" where
  "reqRules rulespecs = Join (map (\<lambda>r. Join r '' '') rulespecs) [CHR 0x0A]"

text \<open>\<^verbatim>\<open>currRules\<close>: the listing without its first entry, joined by newlines.\<close>

definition currRules :: "string list \<Rightarrow> string" where
  "currRules currRuleSpecs = Join (tl currRuleSpecs) [CHR 0x0A]"

definition addChainWithRules ::
  "string \<Rightarrow> string \<Rightarrow> rulespec list \<Rightarrow> backend \<Rightarrow> error option \<times> backend" where
  "addChainWithRules table chain rulespecs b0 =
     (let b1 = snd (ipt_NewChain table chain b0) in
      (case ipt_List table chain b1 of
         (Inl err, b2) \<Rightarrow>
           (Some (Wrapf err ''iptables -S. table: %q, chain: %q''
                    [StrArg table, StrArg chain]), b2)
       | (Inr currRuleSpecs, b2) \<Rightarrow>
           (if currRuleSpecs = [] then (Some (Panic ''slice bounds out of range [1:0]''), b2)
            else if currRules currRuleSpecs = reqRules rulespecs then (None, b2)
            else append_loop table chain rulespecs b2)))"



section \<open>createBaseRules\<close>



section \<open>The watch handlers of root\<close>

text \<open>
  A watch event's payload is a Go \<^verbatim>\<open>interface{}\<close>: a value together with its dynamic
  type. \<open>'a\<close> is what an API object holds; the handlers never look into it.
  \<open>DeletedFinalStateUnknown key obj\<close> is the tombstone \<^verbatim>\<open>cache.DeletedFinalStateUnknown\<close>
  with its fields \<^verbatim>\<open>Key\<close> and \<^verbatim>\<open>Obj\<close>; \<open>NilObj\<close> is the nil interface and \<open>OtherObj\<close> a
  value of any other type.
\<close>

datatype 'a obj =
    NamespacePtr 'a
  | PodPtr 'a
  | NetworkPolicyPtr 'a
  | ExtnNetworkPolicyPtr 'a
  | DeletedFinalStateUnknown string "'a obj"
  | NilObj
  | OtherObj 'a

text \<open>The nine methods of the policy engine \<^verbatim>\<open>npc\<close>, with their arguments.\<close>

datatype 'a npc_call =
    AddNamespace 'a
  | UpdateNamespace 'a 'a
  | DeleteNamespace 'a
  | AddPod 'a
  | UpdatePod 'a 'a
  | DeletePod 'a
  | AddNetworkPolicy "'a obj"
  | UpdateNetworkPolicy "'a obj" "'a obj"
  | DeleteNetworkPolicy "'a obj"

text \<open>
  What running a handler does: it returns after the listed engine calls; or an engine call
  returned an error and \<^verbatim>\<open>handleError\<close> ended the process; or a type assertion failed
  and the handler panicked.
\<close>

datatype 'a outcome =
    Returned "'a npc_call list"
  | FatalExit "'a npc_call list" string
  | AssertionPanic

text \<open>
  \<^verbatim>\<open>handleError(npc.M(args))\<close>: the engine \<open>npc\<close> is a parameter that gives each call its
  error, if any.
\<close>

definition handleError :: "('a npc_call \<Rightarrow> string option) \<Rightarrow> 'a npc_call \<Rightarrow> 'a outcome" where
  "handleError npc c = (case npc c of None \<Rightarrow> Returned [c] | Some err \<Rightarrow> FatalExit [c] err)"

definition nsAddFunc :: "('a npc_call \<Rightarrow> string option) \<Rightarrow> 'a obj \<Rightarrow> 'a outcome" where
  "nsAddFunc npc obj =
     (case obj of NamespacePtr n \<Rightarrow> handleError npc (AddNamespace n) | _ \<Rightarrow> AssertionPanic)"

definition nsDeleteFunc :: "('a npc_call \<Rightarrow> string option) \<Rightarrow> 'a obj \<Rightarrow> 'a outcome" where
  "nsDeleteFunc npc obj =
     (case obj of
        NamespacePtr n \<Rightarrow> handleError npc (DeleteNamespace n)
      | DeletedFinalStateUnknown key inner \<Rightarrow>
          (case inner of
             NamespacePtr n \<Rightarrow> handleError npc (DeleteNamespace n)
           | _ \<Rightarrow> AssertionPanic)
      | _ \<Rightarrow> Returned [])"

definition nsUpdateFunc :: "('a npc_call \<Rightarrow> string option) \<Rightarrow> 'a obj \<Rightarrow> 'a obj \<Rightarrow> 'a outcome" where
  "nsUpdateFunc npc old new =
     (case old of
        NamespacePtr x \<Rightarrow>
          (case new of
             NamespacePtr y \<Rightarrow> handleError npc (UpdateNamespace x y)
           | _ \<Rightarrow> AssertionPanic)
      | _ \<Rightarrow> AssertionPanic)"

definition podAddFunc :: "('a npc_call \<Rightarrow> string option) \<Rightarrow> 'a obj \<Rightarrow> 'a outcome" where
  "podAddFunc npc obj =
     (case obj of PodPtr p \<Rightarrow> handleError npc (AddPod p) | _ \<Rightarrow> AssertionPanic)"

definition podDeleteFunc :: "('a npc_call \<Rightarrow> string option) \<Rightarrow> 'a obj \<Rightarrow> 'a outcome" where
  "podDeleteFunc npc obj =
     (case obj of
        PodPtr p \<Rightarrow> handleError npc (DeletePod p)
      | DeletedFinalStateUnknown key inner \<Rightarrow>
          (case inner of
             PodPtr p \<Rightarrow> handleError npc (DeletePod p)
           | _ \<Rightarrow> AssertionPanic)
      | _ \<Rightarrow> Returned [])"

definition podUpdateFunc :: "('a npc_call \<Rightarrow> string option) \<Rightarrow> 'a obj \<Rightarrow> 'a obj \<Rightarrow> 'a outcome" where
  "podUpdateFunc npc old new =
     (case old of
        PodPtr x \<Rightarrow>
          (case new of
             PodPtr y \<Rightarrow> handleError npc (UpdatePod x y)
           | _ \<Rightarrow> AssertionPanic)
      | _ \<Rightarrow> AssertionPanic)"

definition npAddFunc :: "('a npc_call \<Rightarrow> string option) \<Rightarrow> 'a obj \<Rightarrow> 'a outcome" where
  "npAddFunc npc obj = handleError npc (AddNetworkPolicy obj)"

definition npDeleteFunc :: "('a npc_call \<Rightarrow> string option) \<Rightarrow> 'a obj \<Rightarrow> 'a outcome" where
  "npDeleteFunc npc obj =
     (case obj of
        DeletedFinalStateUnknown key inner \<Rightarrow> handleError npc (DeleteNetworkPolicy inner)
      | _ \<Rightarrow> handleError npc (DeleteNetworkPolicy obj))"

definition npUpdateFunc :: "('a npc_call \<Rightarrow> string option) \<Rightarrow> 'a obj \<Rightarrow> 'a obj \<Rightarrow> 'a outcome" where
  "npUpdateFunc npc old new = handleError npc (UpdateNetworkPolicy old new)"

text \<open>The engine calls a handler made, whatever way it ended.\<close>

fun engine_calls :: "'a outcome \<Rightarrow> 'a npc_call list" where
  "engine_calls (Returned cs) = cs"
| "engine_calls (FatalExit cs err) = cs"
| "engine_calls AssertionPanic = []"

text \<open>
  \<^verbatim>\<open>makeController\<close> and the choice \<^verbatim>\<open>root\<close> makes for the NetworkPolicy watch: the
  REST client, the resource name and the object type the informer is built for.
\<close>

datatype rest_client = CoreClient | ExtensionsClient | NetworkingV1Client

datatype obj_type = CoreNamespace | CorePod | ExtnNetworkPolicy | NetworkingV1NetworkPolicy




section \<open>Vocabulary of the statements\<close>

text \<open>The operations issued between two states, with their outcomes: what the log gained.\<close>

definition issued :: "backend \<Rightarrow> backend \<Rightarrow> (op \<times> string option) list" where
  "issued b b' = drop (length (calls b)) (calls b')"

text \<open>The error of the first failed operation of a log, and whether a log ends at it.\<close>

fun first_failure :: "(op \<times> string option) list \<Rightarrow> error option" where
  "first_failure [] = None"
| "first_failure ((c, None) # xs) = first_failure xs"
| "first_failure ((c, Some m) # xs) = Some (Failed c m)"

fun stops_at_failure :: "(op \<times> string option) list \<Rightarrow> bool" where
  "stops_at_failure [] = True"
| "stops_at_failure ((c, None) # xs) = stops_at_failure xs"
| "stops_at_failure ((c, Some m) # xs) = (xs = [])"

fun isClearChain :: "op \<Rightarrow> bool" where
  "isClearChain (ClearChain t c) = True"
| "isClearChain _ = False"

text \<open>
  A run from \<open>b\<close> with result \<open>rb\<close> is \<open>sound\<close> when the log only grew, the run stopped at
  the first failed operation, and it returned that operation's error (or none).
\<close>

definition sound :: "backend \<Rightarrow> error option \<times> backend \<Rightarrow> bool" where
  "sound b rb =
     (\<exists>xs. calls (snd rb) = calls b @ xs \<and> stops_at_failure xs \<and> fst rb = first_failure xs)"

text \<open>The rules of a chain; a chain that does not exist has none.\<close>

definition chain_rules :: "backend \<Rightarrow> string \<Rightarrow> string \<Rightarrow> rulespec list" where
  "chain_rules b table chain = (case chains b (table, chain) of None \<Rightarrow> [] | Some rs \<Rightarrow> rs)"

text \<open>Lines as a listing has them: none is empty and none holds a newline.\<close>

definition plain_lines :: "string list \<Rightarrow> bool" where
  "plain_lines ls = (\<forall>l \<in> set ls. l \<noteq> [] \<and> CHR 0x0A \<notin> set l)"

text \<open>The backend that refuses nothing beyond what its state explains.\<close>

definition no_faults :: "(op \<times> string option) list \<Rightarrow> op \<Rightarrow> string option" where
  "no_faults h c = None"

text \<open>The backend operation an error goes back to, through its wrappings.\<close>

fun root_cause :: "error \<Rightarrow> op option" where
  "root_cause (Failed c m) = Some c"
| "root_cause (Wrapf e f args) = root_cause e"
| "root_cause (Panic m) = None"

fun isTombstone :: "'a obj \<Rightarrow> bool" where
  "isTombstone (DeletedFinalStateUnknown key inner) = True"
| "isTombstone _ = False"

fun isNamespace :: "'a obj \<Rightarrow> bool" where
  "isNamespace (NamespacePtr n) = True"
| "isNamespace _ = False"

fun isPod :: "'a obj \<Rightarrow> bool" where
  "isPod (PodPtr p) = True"
| "isPod _ = False"

text \<open>The six clear operations of \<^verbatim>\<open>resetIPTables\<close>, in the order of its body.\<close>

definition six_clears :: "npc_consts \<Rightarrow> op list" where
  "six_clears k = map (ClearChain (TableFilter k))
     [IngressChain k, DefaultChain k, MainChain k, EgressMarkChain k, EgressCustomChain k,
      EgressDefaultChain k]"

text \<open>
  A run \<open>follows\<close> a plan when the operations it issued are an initial part of the plan,
  and the whole plan when it returned no error.
\<close>

definition follows :: "op list \<Rightarrow> backend \<Rightarrow> error option \<times> backend \<Rightarrow> bool" where
  "follows plan b rb =
     (\<exists>xs. calls (snd rb) = calls b @ xs \<and> map fst xs = take (length xs) plan \<and>
           (fst rb = None \<longrightarrow> length xs = length plan))"

text \<open>The operations \<^verbatim>\<open>resetIPSets\<close> goes through: the listing, a flush per listed set, and a
  destroy per listed set but \<^verbatim>\<open>npc.LocalIpset\<close>.\<close>

definition sets_plan :: "npc_consts \<Rightarrow> backend \<Rightarrow> op list" where
  "sets_plan k b =
     (let sets = filter (\<lambda>v. HasPrefix v (IpsetNamePrefix k)) (set_names b) in
      SetList (IpsetNamePrefix k) # map SetFlush sets
        @ map SetDestroy (filter (\<lambda>s. s \<noteq> LocalIpset k) sets))"




section \<open>Concrete inputs\<close>

text \<open>
  The names weave-npc uses on a node, for evaluating the functions on concrete inputs; the
  general statements do not depend on them.
\<close>

definition weave_consts :: npc_consts where
  "weave_consts =
     \<lparr>TableFilter = ''filter'', MainChain = ''WEAVE-NPC'',
      DefaultChain = ''WEAVE-NPC-DEFAULT'', IngressChain = ''WEAVE-NPC-INGRESS'',
      EgressChain = ''WEAVE-NPC-EGRESS'', EgressMarkChain = ''WEAVE-NPC-EGRESS-ACCEPT'',
      EgressCustomChain = ''WEAVE-NPC-EGRESS-CUSTOM'',
      EgressDefaultChain = ''WEAVE-NPC-EGRESS-DEFAULT'',
      EgressMark = ''0x40000/0x40000'', IpsetNamePrefix = ''weave-'',
      LocalIpset = ''weave-local-pods''\<rparr>"

text \<open>A backend whose Egress chain holds the two rules A and B.\<close>

definition example_chain_AB :: backend where
  "example_chain_AB =
     \<lparr>chains = [(''filter'', ''WEAVE-NPC-EGRESS'') \<mapsto> [[''A''], [''B'']]],
      ipsets = [], calls = [], faults = no_faults\<rparr>"

text \<open>A backend with no chain that refuses every chain creation.\<close>

definition deny_NewChain :: "(op \<times> string option) list \<Rightarrow> op \<Rightarrow> string option" where
  "deny_NewChain h c = (case c of NewChain t ch \<Rightarrow> Some ''Permission denied'' | _ \<Rightarrow> None)"

definition example_denied :: backend where
  "example_denied = \<lparr>chains = Map.empty, ipsets = [], calls = [], faults = deny_NewChain\<rparr>"

text \<open>
  A node at a restart of weave-npc: the Egress chain holds rules, three named sets exist, two
  of them with the reserved prefix. In the first backend flushing the local-pods set fails.
\<close>

definition deny_flush_local :: "(op \<times> string option) list \<Rightarrow> op \<Rightarrow> string option" where
  "deny_flush_local h c = (if c = SetFlush ''weave-local-pods'' then Some ''Set is busy'' else None)"

definition example_sets :: "(string \<times> ipset_type \<times> string list) list" where
  "example_sets = [(''weave-k8s-a'', HashIP, [''10.32.0.2'']), (''other'', HashIP, [''192.168.0.1'']),
                   (''weave-local-pods'', HashIP, [''10.32.0.3''])]"

definition example_flush_fails :: backend where
  "example_flush_fails =
     \<lparr>chains = [(''filter'', ''WEAVE-NPC-EGRESS'') \<mapsto> [[''A''], [''B'']]],
      ipsets = example_sets, calls = [], faults = deny_flush_local\<rparr>"

definition example_restart :: backend where
  "example_restart =
     \<lparr>chains = [(''filter'', ''WEAVE-NPC-EGRESS'') \<mapsto> [[''A''], [''B'']]],
      ipsets = example_sets, calls = [], faults = no_faults\<rparr>"


section \<open>Lemmas about the backend operations\<close>

lemmas prim_defs = ipt_ClearChain_def ipt_NewChain_def ipt_Append_def ipt_List_def
  ips_List_def ips_Flush_def ips_Destroy_def ips_Create_def Let_def logged_def

subsection \<open>What an operation leaves alone\<close>


lemma faults_prim [simp]:
  "faults (snd (ipt_ClearChain t c b)) = faults b"
  "faults (snd (ipt_NewChain t c b)) = faults b"
  "faults (snd (ipt_Append t c r b)) = faults b"
  "faults (snd (ipt_List t c b)) = faults b"
  "faults (snd (ips_List p b)) = faults b"
  "faults (snd (ips_Flush n b)) = faults b"
  "faults (snd (ips_Destroy n b)) = faults b"
  "faults (snd (ips_Create n ty b)) = faults b"
  by (simp_all add: prim_defs split: option.splits)

lemma chains_ips [simp]:
  "chains (snd (ips_List p b)) = chains b"
  "chains (snd (ips_Flush n b)) = chains b"
  "chains (snd (ips_Destroy n b)) = chains b"
  "chains (snd (ips_Create n ty b)) = chains b"
  "chains (snd (ipt_List t c b)) = chains b"
  by (simp_all add: prim_defs split: option.splits)

lemma chains_ipt_other:
  "x \<noteq> (t, c) \<Longrightarrow> chains (snd (ipt_ClearChain t c b)) x = chains b x"
  "x \<noteq> (t, c) \<Longrightarrow> chains (snd (ipt_NewChain t c b)) x = chains b x"
  "x \<noteq> (t, c) \<Longrightarrow> chains (snd (ipt_Append t c r b)) x = chains b x"
  by (simp_all add: prim_defs split: option.splits)

subsection \<open>What a successful operation did\<close>

lemma ipt_Append_None:
  "ipt_Append t c r b = (None, b') \<Longrightarrow>
     \<exists>rs. chains b (t, c) = Some rs \<and>
       b' = b\<lparr>chains := (chains b)((t, c) \<mapsto> rs @ [r]), calls := calls b @ [(Append t c r, None)]\<rparr>"
  by (auto simp: prim_defs split: option.splits)

lemma ipt_List_Inr:
  "ipt_List t c b = (Inr ls, b') \<Longrightarrow>
     \<exists>rs. chains b (t, c) = Some rs \<and> ls = (''-N '' @ c) # map (\<lambda>r. Join r '' '') rs \<and>
       b' = b\<lparr>calls := calls b @ [(ListRules t c, None)]\<rparr>"
  by (auto simp: prim_defs split: option.splits)

lemma ipt_List_Inl:
  "ipt_List t c b = (Inl e, b') \<Longrightarrow>
     \<exists>m. e = Failed (ListRules t c) m \<and> b' = b\<lparr>calls := calls b @ [(ListRules t c, Some m)]\<rparr>"
  by (auto simp: prim_defs split: option.splits)

lemma ipt_NewChain_calls:
  "\<exists>out. calls (snd (ipt_NewChain t c b)) = calls b @ [(NewChain t c, out)]"
  by (auto simp: prim_defs split: option.splits)

lemma ipt_NewChain_chain:
  "chains (snd (ipt_NewChain t c b)) (t, c) = None \<or>
   chains (snd (ipt_NewChain t c b)) (t, c) = Some (chain_rules b t c)"
  by (auto simp: prim_defs chain_rules_def split: option.splits)

lemma ips_Flush_None:
  "ips_Flush n b = (None, b') \<Longrightarrow>
     n \<in> set (set_names b) \<and>
     b' = b\<lparr>ipsets := map (\<lambda>(n', t, ms). if n' = n then (n', t, []) else (n', t, ms)) (ipsets b),
            calls := calls b @ [(SetFlush n, None)]\<rparr>"
  by (auto simp: prim_defs split: option.splits if_splits)

lemma ips_Destroy_None:
  "ips_Destroy n b = (None, b') \<Longrightarrow>
     n \<in> set (set_names b) \<and>
     b' = b\<lparr>ipsets := filter (\<lambda>e. fst e \<noteq> n) (ipsets b),
            calls := calls b @ [(SetDestroy n, None)]\<rparr>"
  by (auto simp: prim_defs split: option.splits if_splits)


lemma ips_List_Inr:
  "ips_List p b = (Inr sets, b') \<Longrightarrow>
     sets = filter (\<lambda>v. HasPrefix v p) (set_names b) \<and>
     b' = b\<lparr>calls := calls b @ [(SetList p, None)]\<rparr>"
  by (auto simp: prim_defs split: option.splits if_splits)

lemma ok_then_None:
  "ok_then r g = (None, b') \<Longrightarrow> \<exists>b1. r = (None, b1) \<and> g b1 = (None, b')"
  by (cases r) (auto simp: ok_then_def split: option.splits)

subsection \<open>The append loop\<close>

lemma append_loop_None:
  "append_loop t c rs b = (None, b') \<Longrightarrow> chains b (t, c) = Some cur \<Longrightarrow>
     b' = b\<lparr>chains := (chains b)((t, c) \<mapsto> cur @ rs),
            calls := calls b @ map (\<lambda>r. (Append t c r, None)) rs\<rparr>"
proof (induction rs arbitrary: b cur)
  case Nil
  then show ?case by (simp add: map_upd_triv)
next
  case (Cons r rs)
  from Cons.prems(1) obtain b1 where
    b1: "ipt_Append t c r b = (None, b1)" and rest: "append_loop t c rs b1 = (None, b')"
    by (auto split: prod.splits option.splits)
  from ipt_Append_None[OF b1] Cons.prems(2) have
    b1eq: "b1 = b\<lparr>chains := (chains b)((t, c) \<mapsto> cur @ [r]), calls := calls b @ [(Append t c r, None)]\<rparr>"
    by auto
  then have "chains b1 (t, c) = Some (cur @ [r])" by simp
  from Cons.IH[OF rest this] have
    "b' = b1\<lparr>chains := (chains b1)((t, c) \<mapsto> (cur @ [r]) @ rs),
            calls := calls b1 @ map (\<lambda>r. (Append t c r, None)) rs\<rparr>" .
  also have "\<dots> = b\<lparr>chains := (chains b)((t, c) \<mapsto> cur @ r # rs),
            calls := calls b @ map (\<lambda>r. (Append t c r, None)) (r # rs)\<rparr>"
    unfolding b1eq by (rule backend.equality) simp_all
  finally show ?case .
qed

lemma append_loop_total:
  "faults b = no_faults \<Longrightarrow> chains b (t, c) = Some cur \<Longrightarrow> fst (append_loop t c rs b) = None"
proof (induction rs arbitrary: b cur)
  case Nil
  then show ?case by simp
next
  case (Cons r rs)
  let ?b1 = "b\<lparr>chains := (chains b)((t, c) \<mapsto> cur @ [r]), calls := calls b @ [(Append t c r, None)]\<rparr>"
  have step: "ipt_Append t c r b = (None, ?b1)"
    using Cons.prems by (simp add: prim_defs no_faults_def)
  have "fst (append_loop t c rs ?b1) = None"
    by (rule Cons.IH[where cur="cur @ [r]"]) (use Cons.prems in simp_all)
  with step show ?case by simp
qed

lemma issued_append [simp]: "calls b' = calls b @ xs \<Longrightarrow> issued b b' = xs"
  by (simp add: issued_def)

lemma addChain_None:
  assumes "addChainWithRules t c rs b = (None, b')"
    and "reqRules (chain_rules b t c) \<noteq> reqRules rs"
  shows "chains b' (t, c) = Some (chain_rules b t c @ rs)"
    and "map fst (issued b b') = NewChain t c # ListRules t c # map (Append t c) rs"
proof -
  let ?b1 = "snd (ipt_NewChain t c b)"
  obtain out where out: "calls ?b1 = calls b @ [(NewChain t c, out)]"
    using ipt_NewChain_calls by blast
  from assms(1) obtain ls b2 where
    ls: "ipt_List t c ?b1 = (Inr ls, b2)"
    by (auto simp: addChainWithRules_def Let_def split: prod.splits sum.splits)
  from ipt_List_Inr[OF ls] obtain cur where
    cur: "chains ?b1 (t, c) = Some cur" "ls = (''-N '' @ c) # map (\<lambda>r. Join r '' '') cur"
      "b2 = ?b1\<lparr>calls := calls ?b1 @ [(ListRules t c, None)]\<rparr>"
    by blast
  from cur(1) ipt_NewChain_chain[of t c b] have cur_eq: "cur = chain_rules b t c" by auto
  have "currRules ls = reqRules cur" by (simp add: cur(2) currRules_def reqRules_def)
  with assms(2) cur_eq have "currRules ls \<noteq> reqRules rs" by simp
  with assms(1) ls cur(2) have loop: "append_loop t c rs b2 = (None, b')"
    by (simp add: addChainWithRules_def Let_def)
  have "chains b2 (t, c) = Some cur" using cur by simp
  from append_loop_None[OF loop this] have
    b': "b' = b2\<lparr>chains := (chains b2)((t, c) \<mapsto> cur @ rs),
            calls := calls b2 @ map (\<lambda>r. (Append t c r, None)) rs\<rparr>" .
  show "chains b' (t, c) = Some (chain_rules b t c @ rs)" by (simp add: b' cur_eq)
  have "calls b' = calls b @ ((NewChain t c, out) # (ListRules t c, None) # map (\<lambda>r. (Append t c r, None)) rs)"
    by (simp add: b' cur(3) out)
  then show "map fst (issued b b') = NewChain t c # ListRules t c # map (Append t c) rs"
    by (simp add: comp_def)
qed

subsection \<open>Runs that stop at the first failure\<close>

lemma first_failure_append:
  "first_failure xs = None \<Longrightarrow> first_failure (xs @ ys) = first_failure ys"
  by (induction xs rule: first_failure.induct) auto

lemma stops_append:
  "first_failure xs = None \<Longrightarrow> stops_at_failure (xs @ ys) = stops_at_failure ys"
  by (induction xs rule: first_failure.induct) auto

lemma sound_ok_then:
  assumes "sound b r" and "\<And>b1. sound b1 (g b1)"
  shows "sound b (ok_then r g)"
proof (cases r)
  case (Pair e b1)
  show ?thesis
  proof (cases e)
    case (Some err)
    with Pair assms(1) show ?thesis by (simp add: ok_then_def)
  next
    case None
    from assms(1) Pair None obtain xs where
      xs: "calls b1 = calls b @ xs" "stops_at_failure xs" "first_failure xs = None"
      by (auto simp: sound_def)
    from assms(2)[of b1] obtain ys where
      ys: "calls (snd (g b1)) = calls b1 @ ys" "stops_at_failure ys" "fst (g b1) = first_failure ys"
      by (auto simp: sound_def)
    have "calls (snd (g b1)) = calls b @ (xs @ ys)" using xs ys by simp
    moreover have "stops_at_failure (xs @ ys)" using xs ys by (simp add: stops_append)
    moreover have "fst (g b1) = first_failure (xs @ ys)" using xs ys by (simp add: first_failure_append)
    ultimately have "sound b (g b1)" unfolding sound_def by blast
    with Pair None show ?thesis by (simp add: ok_then_def)
  qed
qed

lemma sound_refl: "sound b (None, b)"
  unfolding sound_def by (rule exI[of _ "[]"]) simp

lemma sound_single:
  "calls b' = calls b @ [(c, out)] \<Longrightarrow> r = (case out of None \<Rightarrow> None | Some m \<Rightarrow> Some (Failed c m))
   \<Longrightarrow> sound b (r, b')"
  unfolding sound_def by (rule exI[of _ "[(c, out)]"]) (cases out; simp)

lemma sound_ClearChain: "sound b (ipt_ClearChain t c b)"
  by (cases "faults b (calls b) (ClearChain t c)")
     (simp_all add: ipt_ClearChain_def Let_def logged_def sound_single[where out=None]
        sound_single[where out="Some m" for m])

lemma sound_Flush: "sound b (ips_Flush n b)"
  by (cases "faults b (calls b) (SetFlush n)")
     (simp_all add: ips_Flush_def Let_def logged_def sound_single[where out=None]
        sound_single[where out="Some m" for m])

lemma sound_Destroy: "sound b (ips_Destroy n b)"
  by (cases "faults b (calls b) (SetDestroy n)")
     (simp_all add: ips_Destroy_def Let_def logged_def sound_single[where out=None]
        sound_single[where out="Some m" for m])

lemma sound_resetIPTables: "sound b (resetIPTables k b)"
  unfolding resetIPTables_def
  by (intro sound_ok_then sound_ClearChain sound_refl)

lemma sound_flush_loop: "sound b (flush_loop sets b)"
  by (induction sets arbitrary: b) (auto intro: sound_ok_then sound_Flush sound_refl)

lemma sound_destroy_loop: "sound b (destroy_loop k sets b)"
  by (induction sets arbitrary: b) (auto intro: sound_ok_then sound_Destroy sound_refl)

lemma sound_trans:
  assumes "calls b1 = calls b @ [(c, None)]" and "sound b1 rb"
  shows "sound b rb"
proof -
  from assms(2) obtain ys where
    ys: "calls (snd rb) = calls b1 @ ys" "stops_at_failure ys" "fst rb = first_failure ys"
    by (auto simp: sound_def)
  show ?thesis unfolding sound_def
    by (rule exI[of _ "(c, None) # ys"]) (use assms(1) ys in simp)
qed

lemma sound_resetIPSets: "sound b (resetIPSets k b)"
proof (cases "faults b (calls b) (SetList (IpsetNamePrefix k))")
  case (Some m)
  then show ?thesis
    by (simp add: resetIPSets_def ips_List_def Let_def logged_def sound_single[where out="Some m"])
next
  case None
  let ?b1 = "logged (SetList (IpsetNamePrefix k)) None b"
  have "sound ?b1 (ok_then (flush_loop (filter (\<lambda>v. HasPrefix v (IpsetNamePrefix k)) (set_names b)) ?b1)
          (destroy_loop k (filter (\<lambda>v. HasPrefix v (IpsetNamePrefix k)) (set_names b))))"
    by (intro sound_ok_then sound_flush_loop sound_destroy_loop)
  then have "sound b (ok_then (flush_loop (filter (\<lambda>v. HasPrefix v (IpsetNamePrefix k)) (set_names b)) ?b1)
          (destroy_loop k (filter (\<lambda>v. HasPrefix v (IpsetNamePrefix k)) (set_names b))))"
    by (rule sound_trans[rotated]) (simp add: logged_def)
  with None show ?thesis
    by (simp add: resetIPSets_def ips_List_def Let_def)
qed

lemma sound_reset: "sound b (reset k b)"
  unfolding reset_def by (intro sound_ok_then sound_resetIPTables sound_resetIPSets)

subsection \<open>The reconciler without faults, and its errors\<close>

lemma NewChain_no_faults:
  "faults b = no_faults \<Longrightarrow> chains (snd (ipt_NewChain t c b)) (t, c) = Some (chain_rules b t c)"
  by (auto simp: prim_defs chain_rules_def no_faults_def split: option.splits)

lemma addChain_total:
  assumes "faults b = no_faults" and "reqRules (chain_rules b t c) \<noteq> reqRules rs"
  shows "fst (addChainWithRules t c rs b) = None"
proof -
  let ?b1 = "snd (ipt_NewChain t c b)"
  let ?ls = "(''-N '' @ c) # map (\<lambda>r. Join r '' '') (chain_rules b t c)"
  let ?b2 = "?b1\<lparr>calls := calls ?b1 @ [(ListRules t c, None)]\<rparr>"
  have f1: "faults ?b1 = no_faults" using assms(1) by simp
  have c1: "chains ?b1 (t, c) = Some (chain_rules b t c)" by (rule NewChain_no_faults[OF assms(1)])
  have ls: "ipt_List t c ?b1 = (Inr ?ls, ?b2)"
    using f1 c1 by (simp add: ipt_List_def Let_def logged_def no_faults_def)
  have "currRules ?ls = reqRules (chain_rules b t c)" by (simp add: currRules_def reqRules_def)
  with assms(2) have ne: "currRules ?ls \<noteq> reqRules rs" by simp
  have "fst (append_loop t c rs ?b2) = None"
    by (rule append_loop_total[where cur="chain_rules b t c"]) (simp_all add: assms(1) c1)
  with ls ne show ?thesis by (simp add: addChainWithRules_def Let_def)
qed

lemma ipt_Append_calls:
  "\<exists>out. calls (snd (ipt_Append t c r b)) = calls b @ [(Append t c r, out)]"
  by (auto simp: prim_defs split: option.splits)

lemma ipt_Append_Some:
  "fst (ipt_Append t c r b) = Some e \<Longrightarrow> \<exists>m. e = Failed (Append t c r) m"
  by (auto simp: prim_defs split: option.splits)

lemma append_loop_calls:
  "\<exists>xs. calls (snd (append_loop t c rs b)) = calls b @ xs"
proof (induction rs arbitrary: b)
  case Nil
  then show ?case by simp
next
  case (Cons r rs)
  obtain out where out: "calls (snd (ipt_Append t c r b)) = calls b @ [(Append t c r, out)]"
    using ipt_Append_calls by blast
  show ?case
  proof (cases "ipt_Append t c r b")
    case (Pair res b1)
    show ?thesis
    proof (cases res)
      case None
      from Cons.IH[of b1] obtain xs where "calls (snd (append_loop t c rs b1)) = calls b1 @ xs"
        by blast
      with out Pair None show ?thesis by simp
    next
      case (Some e)
      with out Pair show ?thesis by simp
    qed
  qed
qed

lemma append_loop_error:
  "fst (append_loop t c rs b) = Some e \<Longrightarrow> \<exists>r \<in> set rs. root_cause e = Some (Append t c r)"
proof (induction rs arbitrary: b)
  case Nil
  then show ?case by simp
next
  case (Cons r rs)
  show ?case
  proof (cases "ipt_Append t c r b")
    case (Pair res b1)
    show ?thesis
    proof (cases res)
      case None
      with Pair Cons.prems have "fst (append_loop t c rs b1) = Some e" by simp
      from Cons.IH[OF this] show ?thesis by auto
    next
      case (Some e')
      with Pair have "fst (ipt_Append t c r b) = Some e'" by simp
      from ipt_Append_Some[OF this] obtain m where "e' = Failed (Append t c r) m" ..
      with Pair Some Cons.prems show ?thesis by auto
    qed
  qed
qed

subsection \<open>The comparison of the reconciler\<close>

text \<open>
  The reconciler compares texts. For rules whose rendered lines are not empty and hold no
  newline, the texts differ exactly when the lists of rendered rules differ; and when the
  texts are equal a successful call issues the chain creation and the listing only.
\<close>

lemma Join_Cons:
  "Join (x # xs) sep = x @ (if xs = [] then [] else sep @ Join xs sep)"
  by (cases xs) simp_all

lemma Join_nonempty:
  "plain_lines ls \<Longrightarrow> ls \<noteq> [] \<Longrightarrow> Join ls sep \<noteq> []"
  by (cases ls) (auto simp: plain_lines_def Join_Cons)

lemma line_split:
  assumes "CHR 0x0A \<notin> set x" and "CHR 0x0A \<notin> set y"
    and "x @ (if p then [] else CHR 0x0A # r) = y @ (if q then [] else CHR 0x0A # s)"
  shows "x = y \<and> (if p then [] else CHR 0x0A # r) = (if q then [] else CHR 0x0A # s)"
proof -
  have tw: "\<And>z t. CHR 0x0A \<notin> set z \<Longrightarrow> t = [] \<or> hd t = CHR 0x0A \<Longrightarrow>
              takeWhile (\<lambda>c. c \<noteq> CHR 0x0A) (z @ t) = z"
  proof -
    fix z :: string and t :: string
    assume z: "CHR 0x0A \<notin> set z" and t: "t = [] \<or> hd t = CHR 0x0A"
    have "takeWhile (\<lambda>c. c \<noteq> CHR 0x0A) t = []" using t by (cases t) auto
    moreover have "\<forall>c \<in> set z. c \<noteq> CHR 0x0A" using z by auto
    ultimately show "takeWhile (\<lambda>c. c \<noteq> CHR 0x0A) (z @ t) = z"
      by (simp add: takeWhile_append2)
  qed
  have "takeWhile (\<lambda>c. c \<noteq> CHR 0x0A) (x @ (if p then [] else CHR 0x0A # r)) = x"
    by (rule tw[OF assms(1)]) simp
  moreover have "takeWhile (\<lambda>c. c \<noteq> CHR 0x0A) (y @ (if q then [] else CHR 0x0A # s)) = y"
    by (rule tw[OF assms(2)]) simp
  ultimately have "x = y" using assms(3) by simp
  with assms(3) show ?thesis by simp
qed

lemma Join_newline_inj:
  "plain_lines xs \<Longrightarrow> plain_lines ys \<Longrightarrow> Join xs [CHR 0x0A] = Join ys [CHR 0x0A] \<Longrightarrow> xs = ys"
proof (induction xs arbitrary: ys)
  case Nil
  then show ?case using Join_nonempty[of ys "[CHR 0x0A]"] by auto
next
  case (Cons x xs)
  show ?case
  proof (cases ys)
    case Nil
    with Cons.prems Join_nonempty[of "x # xs" "[CHR 0x0A]"] show ?thesis by auto
  next
    case (Cons y ys')
    from Cons.prems(1) have px: "CHR 0x0A \<notin> set x" "plain_lines xs"
      by (auto simp: plain_lines_def)
    from Cons.prems(2) Cons have py: "CHR 0x0A \<notin> set y" "plain_lines ys'"
      by (auto simp: plain_lines_def)
    from Cons.prems(3) Cons have "Join (x # xs) [CHR 0x0A] = Join (y # ys') [CHR 0x0A]"
      by (simp only:)
    then have
      "x @ (if xs = [] then [] else CHR 0x0A # Join xs [CHR 0x0A])
         = y @ (if ys' = [] then [] else CHR 0x0A # Join ys' [CHR 0x0A])"
      by (simp only: Join_Cons append_Cons append_Nil)
    from line_split[OF px(1) py(1) this] have xy: "x = y" and
      rest: "(if xs = [] then [] else CHR 0x0A # Join xs [CHR 0x0A])
               = (if ys' = [] then [] else CHR 0x0A # Join ys' [CHR 0x0A])" by simp_all
    have "xs = ys'"
    proof (cases "xs = []")
      case True
      with rest show ?thesis by (cases "ys' = []") simp_all
    next
      case False
      with rest have "ys' \<noteq> []" by (cases "ys' = []") simp_all
      with rest False have "Join xs [CHR 0x0A] = Join ys' [CHR 0x0A]" by simp
      from Cons.IH[OF px(2) py(2) this] show ?thesis .
    qed
    with xy Cons show ?thesis by simp
  qed
qed

lemma reqRules_differ:
  assumes "plain_lines (map (\<lambda>r. Join r '' '') cur)" and "plain_lines (map (\<lambda>r. Join r '' '') rs)"
  shows "(reqRules cur \<noteq> reqRules rs) = (map (\<lambda>r. Join r '' '') cur \<noteq> map (\<lambda>r. Join r '' '') rs)"
  unfolding reqRules_def using Join_newline_inj[OF assms] by auto

lemma addChain_equal_noop:
  assumes "addChainWithRules t c rs b = (None, b')"
    and "reqRules (chain_rules b t c) = reqRules rs"
  shows "map fst (issued b b') = [NewChain t c, ListRules t c]"
proof -
  let ?b1 = "snd (ipt_NewChain t c b)"
  obtain out where out: "calls ?b1 = calls b @ [(NewChain t c, out)]"
    using ipt_NewChain_calls by blast
  from assms(1) obtain ls b2 where ls: "ipt_List t c ?b1 = (Inr ls, b2)"
    by (auto simp: addChainWithRules_def Let_def split: prod.splits sum.splits)
  from ipt_List_Inr[OF ls] obtain cur where
    cur: "chains ?b1 (t, c) = Some cur" "ls = (''-N '' @ c) # map (\<lambda>r. Join r '' '') cur"
      "b2 = ?b1\<lparr>calls := calls ?b1 @ [(ListRules t c, None)]\<rparr>"
    by blast
  from cur(1) ipt_NewChain_chain[of t c b] have cur_eq: "cur = chain_rules b t c" by auto
  have "currRules ls = reqRules cur" by (simp add: cur(2) currRules_def reqRules_def)
  with assms(2) cur_eq have "currRules ls = reqRules rs" by simp
  with assms(1) ls cur(2) have "b' = b2" by (simp add: addChainWithRules_def Let_def)
  then have "calls b' = calls b @ [(NewChain t c, out), (ListRules t c, None)]"
    by (simp add: cur(3) out)
  then have "issued b b' = [(NewChain t c, out), (ListRules t c, None)]" by (rule issued_append)
  then show ?thesis by simp
qed

section \<open>The chain reconciler\<close>

text \<open>
  Claim C1. Whenever the reconciler finds the chain's current rules different from the
  desired rules (the comparison it makes: both rendered as text, each rule's tokens joined by
  spaces and the rules by newlines), it appends the desired rules to the chain without
  clearing it. With a backend that injects no fault the call succeeds; and whenever the call
  succeeds, the chain holds its former rules followed by the desired ones, and the operations
  issued are the chain creation, the listing and one append per desired rule, so no clear.
  From a chain with rules A, B and desired rules A, C the chain becomes A, B, A, C.
\<close>

theorem addChainWithRules_appends_without_clearing:
  assumes "reqRules (chain_rules b table chain) \<noteq> reqRules rulespecs"
  shows "(faults b = no_faults \<longrightarrow> fst (addChainWithRules table chain rulespecs b) = None) \<and>
         (fst (addChainWithRules table chain rulespecs b) = None \<longrightarrow>
            chains (snd (addChainWithRules table chain rulespecs b)) (table, chain)
              = Some (chain_rules b table chain @ rulespecs) \<and>
            map fst (issued b (snd (addChainWithRules table chain rulespecs b)))
              = NewChain table chain # ListRules table chain # map (Append table chain) rulespecs)"
proof (intro conjI impI)
  assume "faults b = no_faults"
  then show "fst (addChainWithRules table chain rulespecs b) = None"
    using assms by (rule addChain_total)
next
  assume ok: "fst (addChainWithRules table chain rulespecs b) = None"
  then have eq: "addChainWithRules table chain rulespecs b
                  = (None, snd (addChainWithRules table chain rulespecs b))"
    by (metis prod.collapse)
  from addChain_None(1)[OF eq assms]
  show "chains (snd (addChainWithRules table chain rulespecs b)) (table, chain)
          = Some (chain_rules b table chain @ rulespecs)" .
  from addChain_None(2)[OF eq assms]
  show "map fst (issued b (snd (addChainWithRules table chain rulespecs b)))
          = NewChain table chain # ListRules table chain # map (Append table chain) rulespecs" .
qed

lemma chain_AB_rules:
  "chain_rules example_chain_AB ''filter'' ''WEAVE-NPC-EGRESS'' = [[''A''], [''B'']]"
  by (simp add: chain_rules_def example_chain_AB_def)

theorem addChainWithRules_appends_without_clearing_witness:
  "reqRules (chain_rules example_chain_AB ''filter'' ''WEAVE-NPC-EGRESS'') \<noteq> reqRules [[''A''], [''C'']] \<and>
   faults example_chain_AB = no_faults \<and>
   fst (addChainWithRules ''filter'' ''WEAVE-NPC-EGRESS'' [[''A''], [''C'']] example_chain_AB) = None \<and>
   chains (snd (addChainWithRules ''filter'' ''WEAVE-NPC-EGRESS'' [[''A''], [''C'']] example_chain_AB))
       (''filter'', ''WEAVE-NPC-EGRESS'') = Some [[''A''], [''B''], [''A''], [''C'']] \<and>
   map fst (issued example_chain_AB
              (snd (addChainWithRules ''filter'' ''WEAVE-NPC-EGRESS'' [[''A''], [''C'']] example_chain_AB)))
     = [NewChain ''filter'' ''WEAVE-NPC-EGRESS'', ListRules ''filter'' ''WEAVE-NPC-EGRESS'',
        Append ''filter'' ''WEAVE-NPC-EGRESS'' [''A''], Append ''filter'' ''WEAVE-NPC-EGRESS'' [''C'']]"
proof -
  have h: "reqRules (chain_rules example_chain_AB ''filter'' ''WEAVE-NPC-EGRESS'') \<noteq> reqRules [[''A''], [''C'']]"
    by (simp add: chain_AB_rules reqRules_def)
  have f: "faults example_chain_AB = no_faults" by (simp add: example_chain_AB_def)
  from addChainWithRules_appends_without_clearing[OF h] f h show ?thesis
    by (simp add: chain_AB_rules)
qed

text \<open>
  Claim C2. The reconciler is claimed idempotent: two calls in a row with the same input
  trigger one append batch, the second being a no-op. On a chain that holds A, B, two calls
  with the desired rules A, C append twice: the first call leaves A, B, A, C, which again
  differs from A, C, so the second call appends once more and leaves A, B, A, C, A, C. The
  function's own doc comment says it flushes the chain before appending, which would make
  the second call a no-op; the body has no such flush.
\<close>

theorem addChainWithRules_twice_appends_twice:
  "chains (snd (addChainWithRules ''filter'' ''WEAVE-NPC-EGRESS'' [[''A''], [''C'']]
             (snd (addChainWithRules ''filter'' ''WEAVE-NPC-EGRESS'' [[''A''], [''C'']] example_chain_AB))))
       (''filter'', ''WEAVE-NPC-EGRESS'')
     = Some [[''A''], [''B''], [''A''], [''C''], [''A''], [''C'']] \<and>
   map fst (calls (snd (addChainWithRules ''filter'' ''WEAVE-NPC-EGRESS'' [[''A''], [''C'']]
             (snd (addChainWithRules ''filter'' ''WEAVE-NPC-EGRESS'' [[''A''], [''C'']] example_chain_AB)))))
     = [NewChain ''filter'' ''WEAVE-NPC-EGRESS'', ListRules ''filter'' ''WEAVE-NPC-EGRESS'',
        Append ''filter'' ''WEAVE-NPC-EGRESS'' [''A''], Append ''filter'' ''WEAVE-NPC-EGRESS'' [''C''],
        NewChain ''filter'' ''WEAVE-NPC-EGRESS'', ListRules ''filter'' ''WEAVE-NPC-EGRESS'',
        Append ''filter'' ''WEAVE-NPC-EGRESS'' [''A''], Append ''filter'' ''WEAVE-NPC-EGRESS'' [''C'']]"
  by (simp add: addChainWithRules_def example_chain_AB_def prim_defs no_faults_def
        currRules_def reqRules_def)

text \<open>
  Claim C10. In the reconciler every error of the chain creation is dropped, whatever its
  cause: the next operation issued is always the listing of the chain, and an error the
  reconciler returns goes back to the listing or to one of the appends, never to the chain
  creation.
\<close>

theorem addChainWithRules_discards_NewChain_error:
  "(\<exists>out1 out2 rest. issued b (snd (addChainWithRules table chain rulespecs b))
        = (NewChain table chain, out1) # (ListRules table chain, out2) # rest) \<and>
   (\<forall>e. fst (addChainWithRules table chain rulespecs b) = Some e \<longrightarrow>
        root_cause e = Some (ListRules table chain) \<or>
        (\<exists>r \<in> set rulespecs. root_cause e = Some (Append table chain r)))"
proof -
  let ?b1 = "snd (ipt_NewChain table chain b)"
  let ?A = "addChainWithRules table chain rulespecs b"
  obtain out1 where out1: "calls ?b1 = calls b @ [(NewChain table chain, out1)]"
    using ipt_NewChain_calls by blast
  show ?thesis
  proof (cases "ipt_List table chain ?b1")
    case (Pair res b2)
    show ?thesis
    proof (cases res)
      case (Inl err)
      with Pair ipt_List_Inl[of table chain ?b1 err b2] obtain m where
        m: "err = Failed (ListRules table chain) m"
           "b2 = ?b1\<lparr>calls := calls ?b1 @ [(ListRules table chain, Some m)]\<rparr>"
        by auto
      have A: "?A = (Some (Wrapf err ''iptables -S. table: %q, chain: %q''
                            [StrArg table, StrArg chain]), b2)"
        using Pair Inl by (simp add: addChainWithRules_def Let_def)
      have "calls (snd ?A) = calls b @ [(NewChain table chain, out1), (ListRules table chain, Some m)]"
        by (simp add: A m(2) out1)
      then have "issued b (snd ?A) = (NewChain table chain, out1) # (ListRules table chain, Some m) # []"
        by simp
      moreover have "\<forall>e. fst ?A = Some e \<longrightarrow> root_cause e = Some (ListRules table chain)"
        by (simp add: A m(1))
      ultimately show ?thesis by blast
    next
      case (Inr ls)
      with Pair ipt_List_Inr[of table chain ?b1 ls b2] obtain cur where
        cur: "ls = (''-N '' @ chain) # map (\<lambda>r. Join r '' '') cur"
             "b2 = ?b1\<lparr>calls := calls ?b1 @ [(ListRules table chain, None)]\<rparr>"
        by auto
      have b2: "calls b2 = calls b @ [(NewChain table chain, out1), (ListRules table chain, None)]"
        by (simp add: cur(2) out1)
      show ?thesis
      proof (cases "currRules ls = reqRules rulespecs")
        case True
        then have A: "?A = (None, b2)"
          using Pair Inr cur(1) by (simp add: addChainWithRules_def Let_def)
        have "issued b (snd ?A) = (NewChain table chain, out1) # (ListRules table chain, None) # []"
          using b2 by (simp add: A)
        moreover have "fst ?A = None" by (simp add: A)
        ultimately show ?thesis by simp
      next
        case False
        then have A: "?A = append_loop table chain rulespecs b2"
          using Pair Inr cur(1) by (simp add: addChainWithRules_def Let_def)
        obtain xs where "calls (snd (append_loop table chain rulespecs b2)) = calls b2 @ xs"
          using append_loop_calls by blast
        then have "calls (snd ?A) = calls b @ ((NewChain table chain, out1) # (ListRules table chain, None) # xs)"
          by (simp add: A b2)
        then have "issued b (snd ?A) = (NewChain table chain, out1) # (ListRules table chain, None) # xs"
          by (rule issued_append)
        moreover have "\<forall>e. fst ?A = Some e \<longrightarrow>
              (\<exists>r \<in> set rulespecs. root_cause e = Some (Append table chain r))"
          using append_loop_error by (simp add: A)
        ultimately show ?thesis by blast
      qed
    qed
  qed
qed

theorem addChainWithRules_discards_NewChain_error_witness:
  "fst (ipt_NewChain ''filter'' ''WEAVE-NPC-EGRESS'' example_denied)
     = Some (Failed (NewChain ''filter'' ''WEAVE-NPC-EGRESS'') ''Permission denied'') \<and>
   fst (addChainWithRules ''filter'' ''WEAVE-NPC-EGRESS'' [[''A'']] example_denied)
     = Some (Wrapf (Failed (ListRules ''filter'' ''WEAVE-NPC-EGRESS'') ''No chain/target/match by that name.'')
               ''iptables -S. table: %q, chain: %q'' [StrArg ''filter'', StrArg ''WEAVE-NPC-EGRESS'']) \<and>
   root_cause (Wrapf (Failed (ListRules ''filter'' ''WEAVE-NPC-EGRESS'') ''No chain/target/match by that name.'')
               ''iptables -S. table: %q, chain: %q'' [StrArg ''filter'', StrArg ''WEAVE-NPC-EGRESS''])
     = Some (ListRules ''filter'' ''WEAVE-NPC-EGRESS'')"
proof -
  have r: "fst (addChainWithRules ''filter'' ''WEAVE-NPC-EGRESS'' [[''A'']] example_denied)
     = Some (Wrapf (Failed (ListRules ''filter'' ''WEAVE-NPC-EGRESS'') ''No chain/target/match by that name.'')
               ''iptables -S. table: %q, chain: %q'' [StrArg ''filter'', StrArg ''WEAVE-NPC-EGRESS''])"
    by (simp add: addChainWithRules_def example_denied_def prim_defs deny_NewChain_def)
  have n: "fst (ipt_NewChain ''filter'' ''WEAVE-NPC-EGRESS'' example_denied)
     = Some (Failed (NewChain ''filter'' ''WEAVE-NPC-EGRESS'') ''Permission denied'')"
    by (simp add: example_denied_def prim_defs deny_NewChain_def)
  from addChainWithRules_discards_NewChain_error[of example_denied "''filter''" "''WEAVE-NPC-EGRESS''" "[[''A'']]"]
    r n show ?thesis by simp
qed

section \<open>The delete handlers\<close>

text \<open>
  Claim C3. For a delete event that carries a final-state-unknown tombstone wrapping the
  last known object, each delete handler calls its Delete method of the policy engine with
  exactly the wrapped object: the Namespace handler for a wrapped Namespace, the Pod handler
  for a wrapped Pod, and the NetworkPolicy handler for whatever the tombstone wraps. This
  holds whether or not the engine then reports an error.
\<close>

theorem delete_tombstone_recovers_object:
  "engine_calls (nsDeleteFunc npc (DeletedFinalStateUnknown key (NamespacePtr n))) = [DeleteNamespace n] \<and>
   engine_calls (podDeleteFunc npc (DeletedFinalStateUnknown key (PodPtr p))) = [DeletePod p] \<and>
   engine_calls (npDeleteFunc npc (DeletedFinalStateUnknown key x)) = [DeleteNetworkPolicy x]"
  by (simp add: nsDeleteFunc_def podDeleteFunc_def npDeleteFunc_def handleError_def split: option.splits)

text \<open>
  Claim C9. A Namespace or Pod delete event whose payload is neither the live object type
  nor a tombstone makes the handler return without any engine call; the NetworkPolicy
  handler forwards every payload that is not a tombstone, of whatever type, unchanged to
  DeleteNetworkPolicy.
\<close>

theorem delete_unexpected_payload:
  "(\<not> isNamespace obj \<and> \<not> isTombstone obj \<longrightarrow> nsDeleteFunc npc obj = Returned []) \<and>
   (\<not> isPod obj \<and> \<not> isTombstone obj \<longrightarrow> podDeleteFunc npc obj = Returned []) \<and>
   (\<not> isTombstone obj \<longrightarrow> engine_calls (npDeleteFunc npc obj) = [DeleteNetworkPolicy obj])"
  by (cases obj) (simp_all add: nsDeleteFunc_def podDeleteFunc_def npDeleteFunc_def handleError_def
        split: option.splits)

theorem delete_unexpected_payload_witness:
  "\<not> isNamespace (OtherObj (0::nat)) \<and> \<not> isPod (OtherObj (0::nat)) \<and> \<not> isTombstone (OtherObj (0::nat)) \<and>
   nsDeleteFunc (\<lambda>c. None) (OtherObj (0::nat)) = Returned [] \<and>
   podDeleteFunc (\<lambda>c. None) (OtherObj (0::nat)) = Returned [] \<and>
   engine_calls (npDeleteFunc (\<lambda>c. None) (OtherObj (0::nat))) = [DeleteNetworkPolicy (OtherObj 0)]"
  using delete_unexpected_payload[of "OtherObj (0::nat)" "\<lambda>c. None"] by simp

section \<open>The Bootstrapper\<close>

subsection \<open>Chains the reset does not name\<close>

lemma ok_then_chain:
  assumes "chains (snd r) x = chains b x" and "\<And>b1. chains (snd (g b1)) x = chains b1 x"
  shows "chains (snd (ok_then r g)) x = chains b x"
  using assms by (cases r) (auto simp: ok_then_def split: option.splits)

lemma resetIPTables_other_chain:
  assumes "x \<notin> set (map (Pair (TableFilter k))
             [IngressChain k, DefaultChain k, MainChain k, EgressMarkChain k, EgressCustomChain k,
              EgressDefaultChain k])"
  shows "chains (snd (resetIPTables k b)) x = chains b x"
  unfolding resetIPTables_def using assms
  by (intro ok_then_chain chains_ipt_other(1)) auto

lemma flush_loop_chains: "chains (snd (flush_loop sets b)) x = chains b x"
  by (induction sets arbitrary: b) (auto intro: ok_then_chain)

lemma destroy_loop_chains: "chains (snd (destroy_loop k sets b)) x = chains b x"
  by (induction sets arbitrary: b) (auto intro: ok_then_chain)

lemma resetIPSets_chains: "chains (snd (resetIPSets k b)) x = chains b x"
proof (cases "ips_List (IpsetNamePrefix k) b")
  case (Pair res b1)
  have b1: "chains b1 = chains b" using chains_ips(1)[of "IpsetNamePrefix k" b] Pair by simp
  show ?thesis
  proof (cases res)
    case (Inl e)
    with Pair b1 show ?thesis by (simp add: resetIPSets_def)
  next
    case (Inr sets)
    have "chains (snd (ok_then (flush_loop sets b1) (destroy_loop k sets))) x = chains b1 x"
      by (intro ok_then_chain flush_loop_chains destroy_loop_chains)
    with Pair Inr b1 show ?thesis by (simp add: resetIPSets_def)
  qed
qed

subsection \<open>The operations of the reset, in order\<close>

lemma failure_is_last:
  "stops_at_failure xs \<Longrightarrow> (c, Some m) \<in> set xs \<Longrightarrow>
     first_failure xs = Some (Failed c m) \<and> last xs = (c, Some m)"
  by (induction xs rule: stops_at_failure.induct) auto

lemma no_failure_None:
  "first_failure xs = None \<Longrightarrow> (c, Some m) \<notin> set xs"
  by (induction xs rule: first_failure.induct) auto

lemma follows_nil: "follows [] b (None, b)"
  unfolding follows_def by (rule exI[of _ "[]"]) simp

lemma follows_step:
  assumes "\<exists>out. calls (snd r) = calls b @ [(c, out)]" and "\<And>b1. follows plan b1 (g b1)"
  shows "follows (c # plan) b (ok_then r g)"
proof (cases r)
  case (Pair e b1)
  from assms(1) Pair obtain out where out: "calls b1 = calls b @ [(c, out)]" by auto
  show ?thesis
  proof (cases e)
    case (Some err)
    have eq: "ok_then r g = (Some err, b1)" using Pair Some by (simp add: ok_then_def)
    show ?thesis unfolding follows_def eq
      by (rule exI[of _ "[(c, out)]"]) (simp add: out)
  next
    case None
    have eq: "ok_then r g = g b1" using Pair None by (simp add: ok_then_def)
    from assms(2)[of b1] obtain ys where
      ys1: "calls (snd (g b1)) = calls b1 @ ys" and ys2: "map fst ys = take (length ys) plan" and
      ys3: "fst (g b1) = None \<longrightarrow> length ys = length plan"
      unfolding follows_def by auto
    show ?thesis unfolding follows_def eq
    proof (intro exI[of _ "(c, out) # ys"] conjI impI)
      show "calls (snd (g b1)) = calls b @ (c, out) # ys" by (simp add: ys1 out)
      show "map fst ((c, out) # ys) = take (length ((c, out) # ys)) (c # plan)"
        using ys2 by simp
      assume "fst (g b1) = None"
      with ys3 show "length ((c, out) # ys) = length (c # plan)" by simp
    qed
  qed
qed

lemma ipt_ClearChain_calls:
  "\<exists>out. calls (snd (ipt_ClearChain t c b)) = calls b @ [(ClearChain t c, out)]"
  by (auto simp: prim_defs split: option.splits)

lemma ips_Flush_calls:
  "\<exists>out. calls (snd (ips_Flush n b)) = calls b @ [(SetFlush n, out)]"
  by (auto simp: prim_defs split: option.splits)

lemma ips_Destroy_calls:
  "\<exists>out. calls (snd (ips_Destroy n b)) = calls b @ [(SetDestroy n, out)]"
  by (auto simp: prim_defs split: option.splits)

lemma follows_resetIPTables: "follows (six_clears k) b (resetIPTables k b)"
  unfolding resetIPTables_def six_clears_def list.map
  by (intro follows_step ipt_ClearChain_calls follows_nil)

lemma follows_flush_loop: "follows (map SetFlush sets) b (flush_loop sets b)"
  by (induction sets arbitrary: b) (auto intro: follows_step ips_Flush_calls follows_nil)

lemma follows_destroy_loop:
  "follows (map SetDestroy (filter (\<lambda>s. s \<noteq> LocalIpset k) sets)) b (destroy_loop k sets b)"
  by (induction sets arbitrary: b) (auto intro: follows_step ips_Destroy_calls follows_nil)

lemma follows_append:
  assumes "follows p1 b r" and "\<And>b1. follows p2 b1 (g b1)"
  shows "follows (p1 @ p2) b (ok_then r g)"
proof (cases r)
  case (Pair e b1)
  from assms(1) Pair obtain xs where
    xs1: "calls b1 = calls b @ xs" and xs2: "map fst xs = take (length xs) p1" and
    xs3: "e = None \<longrightarrow> length xs = length p1"
    unfolding follows_def by auto
  have le: "length xs \<le> length p1"
  proof -
    have "length (map fst xs) = length (take (length xs) p1)" by (simp only: xs2)
    then show ?thesis by simp
  qed
  show ?thesis
  proof (cases e)
    case (Some err)
    have eq: "ok_then r g = (Some err, b1)" using Pair Some by (simp add: ok_then_def)
    have "map fst xs = take (length xs) (p1 @ p2)" using xs2 le by simp
    then show ?thesis unfolding follows_def eq
      by (intro exI[of _ xs]) (simp add: xs1)
  next
    case None
    with xs3 have len: "length xs = length p1" by simp
    with xs2 have xs_eq: "map fst xs = p1" by simp
    have eq: "ok_then r g = g b1" using Pair None by (simp add: ok_then_def)
    from assms(2)[of b1] obtain ys where
      ys1: "calls (snd (g b1)) = calls b1 @ ys" and ys2: "map fst ys = take (length ys) p2" and
      ys3: "fst (g b1) = None \<longrightarrow> length ys = length p2"
      unfolding follows_def by auto
    show ?thesis unfolding follows_def eq
    proof (intro exI[of _ "xs @ ys"] conjI impI)
      show "calls (snd (g b1)) = calls b @ xs @ ys" by (simp add: ys1 xs1)
      show "map fst (xs @ ys) = take (length (xs @ ys)) (p1 @ p2)"
        using ys2 by (simp add: xs_eq len)
      assume "fst (g b1) = None"
      with ys3 show "length (xs @ ys) = length (p1 @ p2)" by (simp add: len)
    qed
  qed
qed

lemma follows_resetIPSets: "follows (sets_plan k b) b (resetIPSets k b)"
proof (cases "faults b (calls b) (SetList (IpsetNamePrefix k))")
  case (Some m)
  then have "resetIPSets k b = (Some (Failed (SetList (IpsetNamePrefix k)) m),
               logged (SetList (IpsetNamePrefix k)) (Some m) b)"
    by (simp add: resetIPSets_def ips_List_def Let_def)
  then show ?thesis unfolding follows_def sets_plan_def Let_def
    by (intro exI[of _ "[(SetList (IpsetNamePrefix k), Some m)]"]) (simp add: logged_def)
next
  case None
  let ?sets = "filter (\<lambda>v. HasPrefix v (IpsetNamePrefix k)) (set_names b)"
  let ?b1 = "logged (SetList (IpsetNamePrefix k)) None b"
  let ?r = "ok_then (flush_loop ?sets ?b1) (destroy_loop k ?sets)"
  have eq: "resetIPSets k b = ?r" using None by (simp add: resetIPSets_def ips_List_def Let_def)
  have "follows (map SetFlush ?sets @ map SetDestroy (filter (\<lambda>s. s \<noteq> LocalIpset k) ?sets)) ?b1 ?r"
    by (intro follows_append follows_flush_loop follows_destroy_loop)
  then obtain ys where
    ys1: "calls (snd ?r) = calls ?b1 @ ys" and
    ys2: "map fst ys = take (length ys) (map SetFlush ?sets @ map SetDestroy (filter (\<lambda>s. s \<noteq> LocalIpset k) ?sets))" and
    ys3: "fst ?r = None \<longrightarrow> length ys = length (map SetFlush ?sets @ map SetDestroy (filter (\<lambda>s. s \<noteq> LocalIpset k) ?sets))"
    unfolding follows_def by auto
  show ?thesis unfolding follows_def sets_plan_def Let_def eq
  proof (intro exI[of _ "(SetList (IpsetNamePrefix k), None) # ys"] conjI impI)
    show "calls (snd ?r) = calls b @ (SetList (IpsetNamePrefix k), None) # ys"
      using ys1 by (simp add: logged_def)
    show "map fst ((SetList (IpsetNamePrefix k), None) # ys)
            = take (length ((SetList (IpsetNamePrefix k), None) # ys))
                (SetList (IpsetNamePrefix k) # map SetFlush ?sets
                   @ map SetDestroy (filter (\<lambda>s. s \<noteq> LocalIpset k) ?sets))"
      using ys2 by simp
    assume "fst ?r = None"
    with ys3 show "length ((SetList (IpsetNamePrefix k), None) # ys)
            = length (SetList (IpsetNamePrefix k) # map SetFlush ?sets
                   @ map SetDestroy (filter (\<lambda>s. s \<noteq> LocalIpset k) ?sets))"
      by simp
  qed
qed

lemma sets_plan_no_clear: "filter isClearChain (sets_plan k b) = []"
  by (simp add: sets_plan_def Let_def filter_empty_conv)

lemma six_clears_all: "filter isClearChain (six_clears k) = six_clears k"
  by (simp add: six_clears_def)

lemma filter_take_nil: "filter P xs = [] \<Longrightarrow> filter P (take n xs) = []"
  by (metis filter_empty_conv in_set_takeD)

lemma clears_of_reset:
  "filter isClearChain (map fst (issued b (snd (reset k b))))
     = take (length (issued b (snd (reset k b)))) (six_clears k)"
proof (cases "resetIPTables k b")
  case (Pair e b1)
  from follows_resetIPTables[of k b] Pair obtain xs where
    xs: "calls b1 = calls b @ xs" "map fst xs = take (length xs) (six_clears k)"
        "e = None \<longrightarrow> length xs = length (six_clears k)"
    unfolding follows_def by auto
  have le: "length xs \<le> length (six_clears k)"
  proof -
    have "length (map fst xs) = length (take (length xs) (six_clears k))" using xs(2) by simp
    then show ?thesis by simp
  qed
  have fx: "filter isClearChain (map fst xs) = map fst xs"
    unfolding xs(2) by (metis six_clears_all filter_id_conv in_set_takeD)
  show ?thesis
  proof (cases e)
    case (Some err)
    then have "reset k b = (Some err, b1)" using Pair by (simp add: reset_def ok_then_def)
    then have "issued b (snd (reset k b)) = xs" using xs(1) by simp
    then show ?thesis using fx xs(2) by simp
  next
    case None
    with xs have full: "map fst xs = six_clears k" "length xs = length (six_clears k)" by simp_all
    have r: "reset k b = resetIPSets k b1" using Pair None by (simp add: reset_def ok_then_def)
    from follows_resetIPSets[of k b1] obtain ys where
      ys: "calls (snd (resetIPSets k b1)) = calls b1 @ ys"
          "map fst ys = take (length ys) (sets_plan k b1)"
      unfolding follows_def by blast
    have "calls (snd (reset k b)) = calls b @ (xs @ ys)" using r xs(1) ys(1) by simp
    then have iss: "issued b (snd (reset k b)) = xs @ ys" by (rule issued_append)
    have "filter isClearChain (map fst ys) = []"
      unfolding ys(2) by (rule filter_take_nil) (rule sets_plan_no_clear)
    then show ?thesis using iss full fx by simp
  qed
qed

lemma reset_success_clears:
  assumes "fst (reset k b) = None"
  shows "take 6 (map fst (issued b (snd (reset k b)))) = six_clears k"
proof (cases "resetIPTables k b")
  case (Pair e b1)
  from follows_resetIPTables[of k b] Pair obtain xs where
    xs1: "calls b1 = calls b @ xs" and xs2: "map fst xs = take (length xs) (six_clears k)" and
    xs3: "e = None \<longrightarrow> length xs = length (six_clears k)"
    unfolding follows_def by auto
  have e: "e = None"
  proof (cases e)
    case (Some err)
    then have "reset k b = (Some err, b1)" using Pair by (simp add: reset_def ok_then_def)
    with assms show ?thesis by simp
  qed
  with xs3 have len: "length xs = 6" by (simp add: six_clears_def)
  with xs2 have full: "map fst xs = six_clears k" by (simp add: six_clears_def)
  have r: "reset k b = resetIPSets k b1" using Pair e by (simp add: reset_def ok_then_def)
  from follows_resetIPSets[of k b1] obtain ys where
    ys: "calls (snd (resetIPSets k b1)) = calls b1 @ ys"
    unfolding follows_def by auto
  have "calls (snd (reset k b)) = calls b @ (xs @ ys)" using r xs1 ys by simp
  then have "issued b (snd (reset k b)) = xs @ ys" by (rule issued_append)
  moreover have "length (six_clears k) = 6" by (simp add: six_clears_def)
  ultimately show ?thesis using full by simp
qed

lemma reset_issued_sound:
  "stops_at_failure (issued b (snd (reset k b))) \<and>
   fst (reset k b) = first_failure (issued b (snd (reset k b)))"
proof -
  from sound_reset[of b k] obtain xs where
    xs: "calls (snd (reset k b)) = calls b @ xs" "stops_at_failure xs"
        "fst (reset k b) = first_failure xs"
    unfolding sound_def by auto
  from xs(1) have "issued b (snd (reset k b)) = xs" by (rule issued_append)
  with xs show ?thesis by simp
qed

lemmas run_defs = reset_def resetIPTables_def resetIPSets_def ok_then_def weave_consts_def
  set_names_def example_sets_def

lemma reset_flush_fails:
  "reset weave_consts example_flush_fails =
     (Some (Failed (SetFlush ''weave-local-pods'') ''Set is busy''),
      \<lparr>chains = [(''filter'', ''WEAVE-NPC-EGRESS'') \<mapsto> [[''A''], [''B'']],
                 (''filter'', ''WEAVE-NPC-INGRESS'') \<mapsto> [],
                 (''filter'', ''WEAVE-NPC-DEFAULT'') \<mapsto> [],
                 (''filter'', ''WEAVE-NPC'') \<mapsto> [],
                 (''filter'', ''WEAVE-NPC-EGRESS-ACCEPT'') \<mapsto> [],
                 (''filter'', ''WEAVE-NPC-EGRESS-CUSTOM'') \<mapsto> [],
                 (''filter'', ''WEAVE-NPC-EGRESS-DEFAULT'') \<mapsto> []],
       ipsets = [(''weave-k8s-a'', HashIP, []), (''other'', HashIP, [''192.168.0.1'']),
                 (''weave-local-pods'', HashIP, [''10.32.0.3''])],
       calls = [(ClearChain ''filter'' ''WEAVE-NPC-INGRESS'', None),
                (ClearChain ''filter'' ''WEAVE-NPC-DEFAULT'', None),
                (ClearChain ''filter'' ''WEAVE-NPC'', None),
                (ClearChain ''filter'' ''WEAVE-NPC-EGRESS-ACCEPT'', None),
                (ClearChain ''filter'' ''WEAVE-NPC-EGRESS-CUSTOM'', None),
                (ClearChain ''filter'' ''WEAVE-NPC-EGRESS-DEFAULT'', None),
                (SetList ''weave-'', None),
                (SetFlush ''weave-k8s-a'', None),
                (SetFlush ''weave-local-pods'', Some ''Set is busy'')],
       faults = deny_flush_local\<rparr>)"
  by (simp add: run_defs example_flush_fails_def prim_defs deny_flush_local_def)

text \<open>
  Claim C5. The Bootstrapper (\<^verbatim>\<open>resetIPTables\<close> followed by \<^verbatim>\<open>resetIPSets\<close>) leaves the
  Egress chain as it found it: from every starting state, whatever fails on the way, the chain
  holds afterwards exactly the rules it held before (and does not exist if it did not). This
  assumes that the Egress chain's name differs from the names of the six chains cleared.
\<close>

theorem reset_leaves_Egress_chain:
  assumes "EgressChain k \<notin> set [IngressChain k, DefaultChain k, MainChain k, EgressMarkChain k,
             EgressCustomChain k, EgressDefaultChain k]"
  shows "chains (snd (reset k b)) (TableFilter k, EgressChain k)
           = chains b (TableFilter k, EgressChain k)"
  unfolding reset_def
proof (rule ok_then_chain)
  show "chains (snd (resetIPTables k b)) (TableFilter k, EgressChain k)
          = chains b (TableFilter k, EgressChain k)"
    by (rule resetIPTables_other_chain) (use assms in auto)
qed (rule resetIPSets_chains)

theorem reset_leaves_Egress_chain_witness:
  "EgressChain weave_consts \<notin> set [IngressChain weave_consts, DefaultChain weave_consts,
      MainChain weave_consts, EgressMarkChain weave_consts, EgressCustomChain weave_consts,
      EgressDefaultChain weave_consts] \<and>
   chains (snd (reset weave_consts example_restart)) (''filter'', ''WEAVE-NPC-EGRESS'')
     = Some [[''A''], [''B'']]"
proof -
  have h: "EgressChain weave_consts \<notin> set [IngressChain weave_consts, DefaultChain weave_consts,
      MainChain weave_consts, EgressMarkChain weave_consts, EgressCustomChain weave_consts,
      EgressDefaultChain weave_consts]"
    by (simp add: weave_consts_def)
  have "chains example_restart (TableFilter weave_consts, EgressChain weave_consts) = Some [[''A''], [''B'']]"
    by (simp add: example_restart_def weave_consts_def)
  with reset_leaves_Egress_chain[OF h, of example_restart] h show ?thesis
    by (simp add: weave_consts_def)
qed

text \<open>
  Claim C7. The Bootstrapper clears exactly the chains Ingress, Default, Main, EgressMark,
  EgressCustom and EgressDefault, in that order: the clear operations it issued are an initial
  part of that list, and all six, first, when it returns no error. Any failure aborts it: an
  operation that failed is the last one issued and its error is what the Bootstrapper
  returns; when it returns no error, no operation failed.
\<close>

theorem reset_aborts_at_first_failure:
  "filter isClearChain (map fst (issued b (snd (reset k b))))
     = take (length (issued b (snd (reset k b)))) (six_clears k) \<and>
   (fst (reset k b) = None \<longrightarrow>
      take 6 (map fst (issued b (snd (reset k b)))) = six_clears k \<and>
      (\<forall>c m. (c, Some m) \<notin> set (issued b (snd (reset k b))))) \<and>
   (\<forall>c m. (c, Some m) \<in> set (issued b (snd (reset k b))) \<longrightarrow>
      fst (reset k b) = Some (Failed c m) \<and> last (issued b (snd (reset k b))) = (c, Some m))"
proof (intro conjI impI allI)
  show "filter isClearChain (map fst (issued b (snd (reset k b))))
     = take (length (issued b (snd (reset k b)))) (six_clears k)"
    by (rule clears_of_reset)
next
  assume "fst (reset k b) = None"
  then show "take 6 (map fst (issued b (snd (reset k b)))) = six_clears k"
    by (rule reset_success_clears)
next
  fix c m
  assume "fst (reset k b) = None"
  then have "first_failure (issued b (snd (reset k b))) = None"
    using reset_issued_sound[of b k] by simp
  then show "(c, Some m) \<notin> set (issued b (snd (reset k b)))" by (rule no_failure_None)
next
  fix c m
  assume in_log: "(c, Some m) \<in> set (issued b (snd (reset k b)))"
  from reset_issued_sound[of b k] have st: "stops_at_failure (issued b (snd (reset k b)))"
    and ff: "fst (reset k b) = first_failure (issued b (snd (reset k b)))" by simp_all
  from failure_is_last[OF st in_log]
  show "fst (reset k b) = Some (Failed c m)" and "last (issued b (snd (reset k b))) = (c, Some m)"
    using ff by simp_all
qed

theorem reset_aborts_at_first_failure_witness:
  "(SetFlush ''weave-local-pods'', Some ''Set is busy'')
      \<in> set (issued example_flush_fails (snd (reset weave_consts example_flush_fails))) \<and>
   fst (reset weave_consts example_flush_fails)
      = Some (Failed (SetFlush ''weave-local-pods'') ''Set is busy'') \<and>
   last (issued example_flush_fails (snd (reset weave_consts example_flush_fails)))
      = (SetFlush ''weave-local-pods'', Some ''Set is busy'') \<and>
   map fst (issued example_flush_fails (snd (reset weave_consts example_flush_fails)))
      = six_clears weave_consts @ [SetList ''weave-'', SetFlush ''weave-k8s-a'', SetFlush ''weave-local-pods'']"
proof -
  have iss: "issued example_flush_fails (snd (reset weave_consts example_flush_fails))
      = [(ClearChain ''filter'' ''WEAVE-NPC-INGRESS'', None),
                (ClearChain ''filter'' ''WEAVE-NPC-DEFAULT'', None),
                (ClearChain ''filter'' ''WEAVE-NPC'', None),
                (ClearChain ''filter'' ''WEAVE-NPC-EGRESS-ACCEPT'', None),
                (ClearChain ''filter'' ''WEAVE-NPC-EGRESS-CUSTOM'', None),
                (ClearChain ''filter'' ''WEAVE-NPC-EGRESS-DEFAULT'', None),
                (SetList ''weave-'', None),
                (SetFlush ''weave-k8s-a'', None),
                (SetFlush ''weave-local-pods'', Some ''Set is busy'')]"
    by (simp add: reset_flush_fails issued_def) (simp add: example_flush_fails_def)
  have mem: "(SetFlush ''weave-local-pods'', Some ''Set is busy'')
      \<in> set (issued example_flush_fails (snd (reset weave_consts example_flush_fails)))"
    by (simp add: iss)
  from reset_aborts_at_first_failure[of example_flush_fails weave_consts] mem
  have "fst (reset weave_consts example_flush_fails)
      = Some (Failed (SetFlush ''weave-local-pods'') ''Set is busy'') \<and>
   last (issued example_flush_fails (snd (reset weave_consts example_flush_fails)))
      = (SetFlush ''weave-local-pods'', Some ''Set is busy'')" by blast
  moreover have "map fst (issued example_flush_fails (snd (reset weave_consts example_flush_fails)))
      = six_clears weave_consts @ [SetList ''weave-'', SetFlush ''weave-k8s-a'', SetFlush ''weave-local-pods'']"
    unfolding iss by (simp add: six_clears_def weave_consts_def)
  ultimately show ?thesis using mem by simp
qed

subsection \<open>The named sets after the reset\<close>

lemma flush_loop_None:
  "flush_loop sets b = (None, b') \<Longrightarrow>
     ipsets b' = map (\<lambda>(n, t, ms). if n \<in> set sets then (n, t, []) else (n, t, ms)) (ipsets b)"
proof (induction sets arbitrary: b)
  case Nil
  then show ?case by (simp add: case_prod_beta)
next
  case (Cons s sets)
  from Cons.prems obtain b1 where
    b1: "ips_Flush s b = (None, b1)" and rest: "flush_loop sets b1 = (None, b')"
    by (auto dest: ok_then_None)
  from ips_Flush_None[OF b1] have
    i1: "ipsets b1 = map (\<lambda>(n', t, ms). if n' = s then (n', t, []) else (n', t, ms)) (ipsets b)"
    by simp
  from Cons.IH[OF rest] show ?case
    unfolding i1 by (auto simp: case_prod_beta)
qed

lemma destroy_loop_None:
  "destroy_loop k sets b = (None, b') \<Longrightarrow>
     ipsets b' = filter (\<lambda>e. fst e \<notin> set (filter (\<lambda>s. s \<noteq> LocalIpset k) sets)) (ipsets b)"
proof (induction sets arbitrary: b)
  case Nil
  then show ?case by simp
next
  case (Cons s sets)
  show ?case
  proof (cases "s = LocalIpset k")
    case True
    with Cons.prems have "destroy_loop k sets b = (None, b')" by simp
    from Cons.IH[OF this] True show ?thesis by simp
  next
    case False
    with Cons.prems obtain b1 where
      b1: "ips_Destroy s b = (None, b1)" and rest: "destroy_loop k sets b1 = (None, b')"
      by (auto dest: ok_then_None)
    from ips_Destroy_None[OF b1] have i1: "ipsets b1 = filter (\<lambda>e. fst e \<noteq> s) (ipsets b)"
      by simp
    from Cons.IH[OF rest] False show ?thesis
      unfolding i1 by (auto intro: filter_cong)
  qed
qed

lemma names_of_flushed_filtered:
  "map fst (filter (\<lambda>e. P (fst e))
              (map (\<lambda>(n, t, ms). if Q n then (n, t, []) else (n, t, ms)) xs))
     = filter P (map fst xs)"
  by (induction xs) (auto split: if_splits)

lemma names_of_flushed:
  "map fst (map (\<lambda>(n, t, ms). if Q n then (n, t, []) else (n, t, ms)) xs) = map fst xs"
  by (induction xs) (auto split: if_splits)

lemma resetIPSets_None:
  assumes "resetIPSets k b = (None, b')"
  shows "ipsets b' =
     filter (\<lambda>e. \<not> HasPrefix (fst e) (IpsetNamePrefix k) \<or> fst e = LocalIpset k)
       (map (\<lambda>(n, t, ms). if HasPrefix n (IpsetNamePrefix k) then (n, t, []) else (n, t, ms))
          (ipsets b))"
proof -
  let ?p = "IpsetNamePrefix k"
  let ?sets = "filter (\<lambda>v. HasPrefix v ?p) (set_names b)"
  from assms obtain sets b1 where l: "ips_List ?p b = (Inr sets, b1)"
    and r: "ok_then (flush_loop sets b1) (destroy_loop k sets) = (None, b')"
    by (auto simp: resetIPSets_def split: prod.splits sum.splits)
  from ips_List_Inr[OF l] have sets: "sets = ?sets" and b1: "ipsets b1 = ipsets b" by simp_all
  from ok_then_None[OF r] obtain b2 where
    f: "flush_loop sets b1 = (None, b2)" and d: "destroy_loop k sets b2 = (None, b')" by auto
  have i2: "ipsets b2 = map (\<lambda>(n, t, ms). if n \<in> set ?sets then (n, t, []) else (n, t, ms)) (ipsets b)"
    using flush_loop_None[OF f] by (simp add: sets b1)
  have m: "map (\<lambda>(n, t, ms). if n \<in> set ?sets then (n, t, []) else (n, t, ms)) (ipsets b)
         = map (\<lambda>(n, t, ms). if HasPrefix n ?p then (n, t, []) else (n, t, ms)) (ipsets b)"
    by (rule map_cong) (force simp: set_names_def)+
  have "ipsets b' = filter (\<lambda>e. fst e \<notin> set (filter (\<lambda>s. s \<noteq> LocalIpset k) ?sets)) (ipsets b2)"
    using destroy_loop_None[OF d] by (simp add: sets)
  also have "\<dots> = filter (\<lambda>e. \<not> HasPrefix (fst e) ?p \<or> fst e = LocalIpset k) (ipsets b2)"
  proof (rule filter_cong)
    fix e assume "e \<in> set (ipsets b2)"
    then have "fst e \<in> set (map fst (ipsets b2))" by simp
    then have "fst e \<in> set (set_names b)"
      unfolding i2 names_of_flushed set_names_def .
    then show "(fst e \<notin> set (filter (\<lambda>s. s \<noteq> LocalIpset k) ?sets))
                = (\<not> HasPrefix (fst e) ?p \<or> fst e = LocalIpset k)"
      by auto
  qed simp
  finally show ?thesis unfolding i2 m .
qed

lemma resetIPSets_restart:
  "resetIPSets weave_consts example_restart =
     (None,
      \<lparr>chains = [(''filter'', ''WEAVE-NPC-EGRESS'') \<mapsto> [[''A''], [''B'']]],
       ipsets = [(''other'', HashIP, [''192.168.0.1'']), (''weave-local-pods'', HashIP, [])],
       calls = [(SetList ''weave-'', None), (SetFlush ''weave-k8s-a'', None),
                (SetFlush ''weave-local-pods'', None), (SetDestroy ''weave-k8s-a'', None)],
       faults = no_faults\<rparr>)"
  by (simp add: run_defs example_restart_def prim_defs no_faults_def)

text \<open>
  Claim C6. After \<^verbatim>\<open>resetIPSets\<close> returns without error, the named sets that remain are
  those that existed before minus every set whose name carries the reserved prefix, the
  local-pods set excepted; a set with the prefix that remains (the local-pods set) is empty;
  and the operations issued are the listing, then a flush of every listed set (the
  local-pods set included), and only then the destroys, one per listed set but the
  local-pods set.
\<close>

theorem resetIPSets_removes_prefixed_sets:
  assumes "fst (resetIPSets k b) = None"
  shows "set_names (snd (resetIPSets k b))
           = filter (\<lambda>n. \<not> HasPrefix n (IpsetNamePrefix k) \<or> n = LocalIpset k) (set_names b) \<and>
         (\<forall>e \<in> set (ipsets (snd (resetIPSets k b))).
            HasPrefix (fst e) (IpsetNamePrefix k) \<longrightarrow> snd (snd e) = []) \<and>
         map fst (issued b (snd (resetIPSets k b)))
           = SetList (IpsetNamePrefix k)
             # map SetFlush (filter (\<lambda>v. HasPrefix v (IpsetNamePrefix k)) (set_names b))
             @ map SetDestroy (filter (\<lambda>s. s \<noteq> LocalIpset k)
                 (filter (\<lambda>v. HasPrefix v (IpsetNamePrefix k)) (set_names b)))"
proof (intro conjI)
  let ?b' = "snd (resetIPSets k b)"
  from assms have eq: "resetIPSets k b = (None, ?b')" by (metis prod.collapse)
  note i = resetIPSets_None[OF eq]
  show "set_names ?b'
           = filter (\<lambda>n. \<not> HasPrefix n (IpsetNamePrefix k) \<or> n = LocalIpset k) (set_names b)"
    unfolding set_names_def i by (rule names_of_flushed_filtered)
  show "\<forall>e \<in> set (ipsets ?b'). HasPrefix (fst e) (IpsetNamePrefix k) \<longrightarrow> snd (snd e) = []"
    unfolding i by (auto split: if_splits)
  from follows_resetIPSets[of k b] obtain xs where
    xs1: "calls ?b' = calls b @ xs" and xs2: "map fst xs = take (length xs) (sets_plan k b)" and
    xs3: "fst (resetIPSets k b) = None \<longrightarrow> length xs = length (sets_plan k b)"
    unfolding follows_def by auto
  from xs3 assms xs2 have "map fst xs = sets_plan k b" by simp
  moreover from xs1 have "issued b ?b' = xs" by (rule issued_append)
  ultimately show "map fst (issued b ?b')
           = SetList (IpsetNamePrefix k)
             # map SetFlush (filter (\<lambda>v. HasPrefix v (IpsetNamePrefix k)) (set_names b))
             @ map SetDestroy (filter (\<lambda>s. s \<noteq> LocalIpset k)
                 (filter (\<lambda>v. HasPrefix v (IpsetNamePrefix k)) (set_names b)))"
    by (simp add: sets_plan_def Let_def)
qed

theorem resetIPSets_removes_prefixed_sets_witness:
  "fst (resetIPSets weave_consts example_restart) = None \<and>
   set_names (snd (resetIPSets weave_consts example_restart)) = [''other'', ''weave-local-pods''] \<and>
   ipsets (snd (resetIPSets weave_consts example_restart))
     = [(''other'', HashIP, [''192.168.0.1'']), (''weave-local-pods'', HashIP, [])] \<and>
   map fst (issued example_restart (snd (resetIPSets weave_consts example_restart)))
     = [SetList ''weave-'', SetFlush ''weave-k8s-a'', SetFlush ''weave-local-pods'',
        SetDestroy ''weave-k8s-a'']"
proof -
  have h: "fst (resetIPSets weave_consts example_restart) = None"
    by (simp add: resetIPSets_restart)
  have n: "set_names example_restart = [''weave-k8s-a'', ''other'', ''weave-local-pods'']"
    by (simp add: set_names_def example_restart_def example_sets_def)
  have i: "ipsets (snd (resetIPSets weave_consts example_restart))
     = [(''other'', HashIP, [''192.168.0.1'']), (''weave-local-pods'', HashIP, [])]"
    by (simp add: resetIPSets_restart)
  from resetIPSets_removes_prefixed_sets[OF h] h i show ?thesis
    by (simp add: n weave_consts_def)
qed

section \<open>The base rules\<close>













































end
